theory Spec2Isabelle
  imports Complex_Main "HOL-Library.AList"
begin

section \<open>The delta\_bot market-making core\<close>

text \<open>
  A shallow embedding of the decision core of the delta\_bot package: the risk engine
  (risk.py), fill accounting and mispricing scales (strategy.py), the quote engine
  (quote\_engine.py) and the order-ladder manager with its rate limiter
  (order\_manager.py, over the transport of exchange.py).

  Python \<^verbatim>\<open>float\<close> values are modelled as \<^typ>\<open>real\<close>: arithmetic is exact, so rounding,
  overflow and NaN are outside the model. Python \<^verbatim>\<open>int\<close> is \<^typ>\<open>int\<close>. Mutation is
  explicit state passing, and every exception of the source is an \<open>Inl\<close> result.
\<close>

subsection \<open>config.py\<close>

definition ETF_SYMBOL :: string where
  "ETF_SYMBOL = ''ETF''"

definition BASKET_SYMBOLS :: "string list" where
  "BASKET_SYMBOLS = [''XYZ'', ''ABC'', ''DEF'']"

definition ALL_SYMBOLS :: "string list" where
  "ALL_SYMBOLS = ETF_SYMBOL # BASKET_SYMBOLS"


definition MIN_MOVE_TO_REFRESH_BPS :: real where
  "MIN_MOVE_TO_REFRESH_BPS = 2"

definition MAX_ACTIONS_PER_SECOND :: nat where
  "MAX_ACTIONS_PER_SECOND = 95"




record SymbolConfig =
  cfg_symbol :: string
  base_size :: int
  size_multiplier :: real
  base_spread_bps :: int
  level_spread_step_bps :: int
  max_levels :: int

definition DEFAULT_SYMBOL_CONFIG :: "string \<rightharpoonup> SymbolConfig" where
  "DEFAULT_SYMBOL_CONFIG = map_of (map (\<lambda>s. (s,
      \<lparr>cfg_symbol = s, base_size = 400, size_multiplier = 15 / 10, base_spread_bps = 15,
       level_spread_step_bps = 15, max_levels = 6\<rparr>)) ALL_SYMBOLS)"

record RiskLimits =
  max_position :: int
  max_dollar_exposure :: real
  drawdown_stop_pct :: real
  hard_stop_pct :: real

definition RISK_LIMITS :: RiskLimits where
  "RISK_LIMITS = \<lparr>max_position = 25000, max_dollar_exposure = 5000000,
     drawdown_stop_pct = 15 / 100, hard_stop_pct = 25 / 100\<rparr>"

definition SYMBOL_IDS :: "string \<rightharpoonup> int" where
  "SYMBOL_IDS = map_of [(''XYZ'', 1), (''ETF'', 2), (''ABC'', 3), (''DEF'', 4)]"




definition DRAWDOWN_SPREAD_MULT :: real where
  "DRAWDOWN_SPREAD_MULT = 15 / 10"

definition DRAWDOWN_SIZE_REDUCTION :: real where
  "DRAWDOWN_SIZE_REDUCTION = 7 / 10"

subsection \<open>risk.py\<close>

text \<open>
  \<open>drawdown_adjustments\<close> returns \<open>(spread_scale, size_scale, throttled)\<close>. The two early
  returns come first, in the source's order; the interpolation clamps \<open>severity\<close> to
  \<open>[0, 1]\<close> before squaring it.
\<close>

definition drawdown_adjustments :: "real \<Rightarrow> real \<times> real \<times> bool" where
  "drawdown_adjustments drawdown_pct =
     (let limits = RISK_LIMITS in
      if drawdown_pct \<ge> hard_stop_pct limits then (2, 0, True)
      else if drawdown_pct \<le> drawdown_stop_pct limits then (1, 1, False)
      else
        let severity = (drawdown_pct - drawdown_stop_pct limits)
                        / (hard_stop_pct limits - drawdown_stop_pct limits);
            severity = max 0 (min 1 severity);
            curved = severity * severity;
            spread_scale = 1 + curved * DRAWDOWN_SPREAD_MULT;
            size_scale = max (2 / 10) (1 - curved * DRAWDOWN_SIZE_REDUCTION)
        in (spread_scale, size_scale, False))"

subsection \<open>models.py\<close>

datatype Side = BID | ASK

record OrderLevel =
  symbol :: string
  side :: Side
  level_index :: int
  price :: real
  size' :: int

text \<open>
  \<open>OrderInfo\<close> extends \<open>OrderLevel\<close>, as the dataclass does. The broker's order id is the
  decimal string of an integer and is kept as that integer; the creation timestamp is
  never read by the core and is left out.
\<close>

record OrderInfo = OrderLevel +
  order_id :: int

record PositionState =
  pos_symbol :: string
  position :: int
  vwap :: real

record PnLState =
  realized :: real
  unrealized :: real
  equity_high_watermark :: real

record MarketLevel =
  mkt_price :: real
  mkt_size :: int

record OrderBook =
  bids :: "MarketLevel list"
  asks :: "MarketLevel list"


record MarketSnapshot =
  snap_symbol :: string
  order_book :: OrderBook
  timestamp :: real

datatype error = KeyError | GatewayError

subsection \<open>strategy.py: fill ingestion\<close>

text \<open>
  The part of \<open>Strategy\<close> that \<open>register_fill\<close> can reach, with the other per-symbol
  tables the coordinator owns. \<open>positions[symbol]\<close> raises \<open>KeyError\<close> on an unknown
  symbol, before anything is written.
\<close>

record Strategy =
  positions :: "string \<rightharpoonup> PositionState"
  pnl :: PnLState
  market :: "string \<rightharpoonup> MarketSnapshot"
  volatility_bps :: "string \<rightharpoonup> real"
  last_mid :: "string \<rightharpoonup> real option"

definition init_strategy :: Strategy where
  "init_strategy =
     \<lparr>positions = map_of (map (\<lambda>s. (s, \<lparr>pos_symbol = s, position = 0, vwap = 0\<rparr>)) ALL_SYMBOLS),
      pnl = \<lparr>realized = 0, unrealized = 0, equity_high_watermark = 0\<rparr>,
      market = Map.empty,
      volatility_bps = map_of (map (\<lambda>s. (s, 15)) ALL_SYMBOLS),
      last_mid = map_of (map (\<lambda>s. (s, None)) ALL_SYMBOLS)\<rparr>"

definition register_fill :: "string \<Rightarrow> Side \<Rightarrow> int \<Rightarrow> real \<Rightarrow> Strategy \<Rightarrow> error + Strategy" where
  "register_fill smb sd sz px s =
     (case positions s smb of
        None \<Rightarrow> Inl KeyError
      | Some state \<Rightarrow>
          let signed_qty = (if sd = BID then sz else - sz);
              pre_position = position state;
              realized' =
                (if pre_position > 0 \<and> signed_qty < 0 then
                   realized (pnl s) + of_int (min pre_position \<bar>signed_qty\<bar>) * (px - vwap state)
                 else if pre_position < 0 \<and> signed_qty > 0 then
                   realized (pnl s) + of_int (min \<bar>pre_position\<bar> signed_qty) * (vwap state - px)
                 else realized (pnl s));
              new_position = pre_position + signed_qty;
              vwap' =
                (if pre_position = 0 \<or> (pre_position > 0 \<and> signed_qty > 0)
                     \<or> (pre_position < 0 \<and> signed_qty < 0) then
                   let total_size = \<bar>pre_position\<bar> + \<bar>signed_qty\<bar> in
                   if total_size > 0 then
                     (vwap state * of_int \<bar>pre_position\<bar> + px * of_int \<bar>signed_qty\<bar>)
                       / of_int total_size
                   else vwap state
                 else
                   let residual = new_position in
                   if residual = 0 then px
                   else if (residual > 0 \<and> signed_qty > 0) \<or> (residual < 0 \<and> signed_qty < 0)
                   then px
                   else vwap state)
          in Inr (s\<lparr>positions := (positions s)(smb \<mapsto> state\<lparr>vwap := vwap', position := new_position\<rparr>),
                    pnl := (pnl s)\<lparr>realized := realized'\<rparr>\<rparr>))"

text \<open>
  A fill is \<open>(symbol, side, size, price)\<close>. Folding a sequence of fills applies
  \<open>register_fill\<close> to each in turn and stops at the first one that raises.
\<close>

type_synonym fill = "string \<times> Side \<times> int \<times> real"

fun register_fills :: "Strategy \<Rightarrow> fill list \<Rightarrow> error + Strategy" where
  "register_fills s [] = Inr s"
| "register_fills s ((smb, sd, sz, px) # fs) =
     (case register_fill smb sd sz px s of
        Inl e \<Rightarrow> Inl e
      | Inr s' \<Rightarrow> register_fills s' fs)"

subsection \<open>strategy.py: mispricing asymmetry\<close>



subsection \<open>quote\_engine.py\<close>

record QuoteContext =
  fair_value :: real
  qc_volatility_bps :: real
  inventory_skew_bps :: int
  spread_scale :: real
  size_scale :: real
  bid_size_scale :: real
  ask_size_scale :: real






subsection \<open>exchange.py: the order transport\<close>

text \<open>
  The gateway is the environment: \<open>gateway c n\<close> is its answer to the \<open>n\<close>-th request the
  client sends, \<open>Some oid\<close> when the request is accepted (for a new order, \<open>oid\<close> is the
  order id it assigns) and \<open>None\<close> when the call raises (network error, rejection). The
  content of the frame does not influence the answer, so price ticks are not computed.
\<close>

record ExchangeClient =
  next_client_id :: int
  order_client_map :: "int \<rightharpoonup> int"
  order_symbol_map :: "int \<rightharpoonup> int"
  gateway :: "nat \<Rightarrow> int option"
  requests :: nat

definition place_order :: "OrderLevel \<Rightarrow> ExchangeClient \<Rightarrow> (error + OrderInfo) \<times> ExchangeClient" where
  "place_order level c =
     (let client_id = next_client_id c;
          c = c\<lparr>next_client_id := client_id + 1\<rparr>
      in case SYMBOL_IDS (symbol level) of
           None \<Rightarrow> (Inl KeyError, c)
         | Some symbol_id \<Rightarrow>
             (case gateway c (requests c) of
                None \<Rightarrow> (Inl GatewayError, c\<lparr>requests := requests c + 1\<rparr>)
              | Some oid \<Rightarrow>
                  (Inr \<lparr>symbol = symbol level, side = side level,
                        level_index = level_index level, price = price level,
                        size' = size' level, order_id = oid\<rparr>,
                   c\<lparr>requests := requests c + 1,
                     order_client_map := (order_client_map c)(oid \<mapsto> client_id),
                     order_symbol_map := (order_symbol_map c)(oid \<mapsto> symbol_id)\<rparr>)))"

definition cancel_order :: "int \<Rightarrow> ExchangeClient \<Rightarrow> (error + unit) \<times> ExchangeClient" where
  "cancel_order oid c =
     (case gateway c (requests c) of
        None \<Rightarrow> (Inl GatewayError, c\<lparr>requests := requests c + 1\<rparr>)
      | Some _ \<Rightarrow>
          (Inr (),
           c\<lparr>requests := requests c + 1,
             order_client_map := (order_client_map c)(oid := None),
             order_symbol_map := (order_symbol_map c)(oid := None)\<rparr>))"

definition replace_order :: "int \<Rightarrow> OrderLevel \<Rightarrow> ExchangeClient \<Rightarrow> (error + OrderInfo) \<times> ExchangeClient" where
  "replace_order oid level c =
     (case cancel_order oid c of
        (Inl e, c') \<Rightarrow> (Inl e, c')
      | (Inr _, c') \<Rightarrow> place_order level c')"

subsection \<open>order\_manager.py\<close>

text \<open>\<open>_bps_distance\<close>; \<open>None\<close> stands for \<open>float("inf")\<close>.\<close>

definition bps_distance :: "real \<Rightarrow> real \<Rightarrow> real option" where
  "bps_distance a b =
     (if a \<le> 0 \<or> b \<le> 0 then None
      else let m = (a + b) / 2 in Some (\<bar>a - b\<bar> / m * 10000))"

definition needs_refresh :: "OrderInfo \<Rightarrow> OrderLevel \<Rightarrow> bool" where
  "needs_refresh existing desired =
     (if size' existing \<noteq> size' desired then True
      else case bps_distance (price existing) (price desired) of
             None \<Rightarrow> True
           | Some d \<Rightarrow> d \<ge> MIN_MOVE_TO_REFRESH_BPS)"

text \<open>
  The manager: its transport, the mirror \<open>active_orders[symbol][side]\<close> (an
  insertion-ordered dict from level index to \<open>OrderInfo | None\<close>, kept as an association
  list), and the two counters of the rate limiter. \<open>clock\<close> is the environment: the
  readings \<open>time.monotonic()\<close> will return, in order, one per call.
\<close>

record OrderLadderManager =
  client :: ExchangeClient
  active_orders :: "string \<rightharpoonup> (Side \<Rightarrow> (int \<times> OrderInfo option) list)"
  window_start :: real
  actions_this_window :: nat
  clock :: "real list"

definition init_client :: "(nat \<Rightarrow> int option) \<Rightarrow> ExchangeClient" where
  "init_client gw =
     \<lparr>next_client_id = 1, order_client_map = Map.empty, order_symbol_map = Map.empty,
      gateway = gw, requests = 0\<rparr>"

text \<open>\<open>__init__\<close>, for the default symbol table; \<open>t0\<close> is the clock reading it takes.\<close>

definition init_manager :: "ExchangeClient \<Rightarrow> real \<Rightarrow> real list \<Rightarrow> OrderLadderManager" where
  "init_manager c t0 clk =
     \<lparr>client = c,
      active_orders = map_of (map (\<lambda>s. (s, \<lambda>sd. [])) ALL_SYMBOLS),
      window_start = t0, actions_this_window = 0, clock = clk\<rparr>"

text \<open>
  An awaited call either returns, raises, or is still waiting for a rate-limiter slot
  when the modelled clock readings end (\<open>Pending\<close>).
\<close>

datatype 'a outcome = Ok 'a | Raise error | Pending

text \<open>
  One iteration of the \<open>while True\<close> loop of \<open>_reserve_action_slot\<close> at clock reading
  \<open>now\<close>: the window is reset when a second has elapsed, and the slot is granted
  (\<open>True\<close>) when the window has room; otherwise the caller sleeps and iterates again.
  There is no suspension point between reading the clock and taking the slot.
\<close>

definition reserve_step :: "real \<Rightarrow> OrderLadderManager \<Rightarrow> bool \<times> OrderLadderManager" where
  "reserve_step now st =
     (let elapsed = now - window_start st;
          st = (if elapsed \<ge> 1 then st\<lparr>window_start := now, actions_this_window := 0\<rparr> else st)
      in if actions_this_window st < MAX_ACTIONS_PER_SECOND
         then (True, st\<lparr>actions_this_window := actions_this_window st + 1\<rparr>)
         else (False, st))"

fun reserve_loop :: "real list \<Rightarrow> OrderLadderManager \<Rightarrow> unit outcome \<times> OrderLadderManager" where
  "reserve_loop [] st = (Pending, st)"
| "reserve_loop (now # rest) st =
     (case reserve_step now (st\<lparr>clock := rest\<rparr>) of
        (True, st') \<Rightarrow> (Ok (), st')
      | (False, st') \<Rightarrow> reserve_loop rest st')"

definition reserve_action_slot :: "OrderLadderManager \<Rightarrow> unit outcome \<times> OrderLadderManager" where
  "reserve_action_slot st = reserve_loop (clock st) st"

text \<open>
  The slots granted over a sequence of clock readings, one loop iteration per reading,
  whoever runs it: each granted slot with the \<open>_window_start\<close> it was counted in and the
  time it was granted at. The action (place, replace or cancel) is issued right after
  its slot is granted.
\<close>

fun grants :: "real list \<Rightarrow> OrderLadderManager \<Rightarrow> (real \<times> real) list" where
  "grants [] st = []"
| "grants (now # rest) st =
     (case reserve_step now st of
        (True, st') \<Rightarrow> (window_start st', now) # grants rest st'
      | (False, st') \<Rightarrow> grants rest st')"

definition throttled_place :: "OrderLevel \<Rightarrow> OrderLadderManager \<Rightarrow> OrderInfo outcome \<times> OrderLadderManager" where
  "throttled_place level st =
     (case reserve_action_slot st of
        (Ok _, st) \<Rightarrow>
          (case place_order level (client st) of
             (Inr info, c) \<Rightarrow> (Ok info, st\<lparr>client := c\<rparr>)
           | (Inl e, c) \<Rightarrow> (Raise e, st\<lparr>client := c\<rparr>))
      | (Raise e, st) \<Rightarrow> (Raise e, st)
      | (Pending, st) \<Rightarrow> (Pending, st))"

definition throttled_replace ::
  "OrderInfo \<Rightarrow> OrderLevel \<Rightarrow> OrderLadderManager \<Rightarrow> OrderInfo outcome \<times> OrderLadderManager" where
  "throttled_replace existing level st =
     (case reserve_action_slot st of
        (Ok _, st) \<Rightarrow>
          (case replace_order (order_id existing) level (client st) of
             (Inr info, c) \<Rightarrow> (Ok info, st\<lparr>client := c\<rparr>)
           | (Inl e, c) \<Rightarrow> (Raise e, st\<lparr>client := c\<rparr>))
      | (Raise e, st) \<Rightarrow> (Raise e, st)
      | (Pending, st) \<Rightarrow> (Pending, st))"

definition throttled_cancel :: "OrderInfo \<Rightarrow> OrderLadderManager \<Rightarrow> unit outcome \<times> OrderLadderManager" where
  "throttled_cancel info st =
     (case reserve_action_slot st of
        (Ok _, st) \<Rightarrow>
          (case cancel_order (order_id info) (client st) of
             (Inr _, c) \<Rightarrow> (Ok (), st\<lparr>client := c\<rparr>)
           | (Inl e, c) \<Rightarrow> (Raise e, st\<lparr>client := c\<rparr>))
      | (Raise e, st) \<Rightarrow> (Raise e, st)
      | (Pending, st) \<Rightarrow> (Pending, st))"

text \<open>
  \<open>self.active_orders[symbol][side][level_index] = info\<close> and
  \<open>del self.active_orders[symbol][side][level_index]\<close>. An unknown symbol raises
  \<open>KeyError\<close>. A key that \<open>_prune_levels\<close> deletes is in the dict, since it comes from the
  snapshot of its items.
\<close>

definition store_entry ::
  "string \<Rightarrow> Side \<Rightarrow> int \<Rightarrow> OrderInfo \<Rightarrow> OrderLadderManager \<Rightarrow> unit outcome \<times> OrderLadderManager" where
  "store_entry smb sd idx info st =
     (case active_orders st smb of
        None \<Rightarrow> (Raise KeyError, st)
      | Some d \<Rightarrow>
          (Ok (), st\<lparr>active_orders :=
             (active_orders st)(smb \<mapsto> d(sd := AList.update idx (Some info) (d sd)))\<rparr>))"

definition delete_entry ::
  "string \<Rightarrow> Side \<Rightarrow> int \<Rightarrow> OrderLadderManager \<Rightarrow> unit outcome \<times> OrderLadderManager" where
  "delete_entry smb sd idx st =
     (case active_orders st smb of
        None \<Rightarrow> (Raise KeyError, st)
      | Some d \<Rightarrow>
          (Ok (), st\<lparr>active_orders :=
             (active_orders st)(smb \<mapsto> d(sd := AList.delete idx (d sd)))\<rparr>))"

text \<open>
  The body of the loop of \<open>_sync_side\<close> for one desired level. \<open>dict.get\<close> gives \<open>None\<close>
  for a missing key and for a key that holds \<open>None\<close>.
\<close>

definition sync_level ::
  "string \<Rightarrow> Side \<Rightarrow> OrderLevel \<Rightarrow> OrderLadderManager \<Rightarrow> unit outcome \<times> OrderLadderManager" where
  "sync_level smb sd level st =
     (case active_orders st smb of
        None \<Rightarrow> (Raise KeyError, st)
      | Some d \<Rightarrow>
          (case (case map_of (d sd) (level_index level) of None \<Rightarrow> None | Some v \<Rightarrow> v) of
             None \<Rightarrow>
               (case throttled_place level st of
                  (Ok info, st) \<Rightarrow> store_entry smb sd (level_index level) info st
                | (Raise e, st) \<Rightarrow> (Raise e, st)
                | (Pending, st) \<Rightarrow> (Pending, st))
           | Some existing \<Rightarrow>
               if needs_refresh existing level then
                 (case throttled_replace existing level st of
                    (Ok info, st) \<Rightarrow> store_entry smb sd (level_index level) info st
                  | (Raise e, st) \<Rightarrow> (Raise e, st)
                  | (Pending, st) \<Rightarrow> (Pending, st))
               else (Ok (), st)))"

fun sync_side ::
  "string \<Rightarrow> Side \<Rightarrow> OrderLevel list \<Rightarrow> OrderLadderManager \<Rightarrow> unit outcome \<times> OrderLadderManager" where
  "sync_side smb sd [] st = (Ok (), st)"
| "sync_side smb sd (level # desired) st =
     (case sync_level smb sd level st of
        (Ok _, st) \<Rightarrow> sync_side smb sd desired st
      | (Raise e, st) \<Rightarrow> (Raise e, st)
      | (Pending, st) \<Rightarrow> (Pending, st))"

text \<open>The loop of \<open>_prune_levels\<close> over the snapshot \<open>list(... .items())\<close>.\<close>

fun prune_loop ::
  "string \<Rightarrow> Side \<Rightarrow> int set \<Rightarrow> (int \<times> OrderInfo option) list \<Rightarrow> OrderLadderManager
     \<Rightarrow> unit outcome \<times> OrderLadderManager" where
  "prune_loop smb sd desired_indexes [] st = (Ok (), st)"
| "prune_loop smb sd desired_indexes ((idx, info) # items) st =
     (if idx \<in> desired_indexes then prune_loop smb sd desired_indexes items st
      else case info of
        None \<Rightarrow> prune_loop smb sd desired_indexes items st
      | Some i \<Rightarrow>
          (case throttled_cancel i st of
             (Ok _, st) \<Rightarrow>
               (case delete_entry smb sd idx st of
                  (Ok _, st) \<Rightarrow> prune_loop smb sd desired_indexes items st
                | (Raise e, st) \<Rightarrow> (Raise e, st)
                | (Pending, st) \<Rightarrow> (Pending, st))
           | (Raise e, st) \<Rightarrow> (Raise e, st)
           | (Pending, st) \<Rightarrow> (Pending, st)))"

definition prune_levels ::
  "string \<Rightarrow> Side \<Rightarrow> int set \<Rightarrow> OrderLadderManager \<Rightarrow> unit outcome \<times> OrderLadderManager" where
  "prune_levels smb sd desired_indexes st =
     (case active_orders st smb of
        None \<Rightarrow> (Raise KeyError, st)
      | Some d \<Rightarrow> prune_loop smb sd desired_indexes (d sd) st)"

text \<open>
  \<open>sync_symbol\<close> holds the manager's lock from start to end, so its four stages run
  without any other \<open>sync_symbol\<close> or \<open>cancel_all\<close> in between. There is no
  \<open>try\<close> in it or below it: the first stage that raises ends the call.
\<close>

definition sync_symbol ::
  "string \<Rightarrow> OrderLevel list \<Rightarrow> OrderLevel list \<Rightarrow> OrderLadderManager
     \<Rightarrow> unit outcome \<times> OrderLadderManager" where
  "sync_symbol smb bid_levels ask_levels st =
     (case sync_side smb BID bid_levels st of
        (Ok _, st) \<Rightarrow>
          (case sync_side smb ASK ask_levels st of
             (Ok _, st) \<Rightarrow>
               (case prune_levels smb BID (set (map level_index bid_levels)) st of
                  (Ok _, st) \<Rightarrow> prune_levels smb ASK (set (map level_index ask_levels)) st
                | (Raise e, st) \<Rightarrow> (Raise e, st)
                | (Pending, st) \<Rightarrow> (Pending, st))
           | (Raise e, st) \<Rightarrow> (Raise e, st)
           | (Pending, st) \<Rightarrow> (Pending, st))
      | (Raise e, st) \<Rightarrow> (Raise e, st)
      | (Pending, st) \<Rightarrow> (Pending, st))"

section \<open>Properties\<close>

subsection \<open>Drawdown response\<close>

lemma drawdown_adjustments_hard:
  "25 / 100 \<le> d \<Longrightarrow> drawdown_adjustments d = (2, 0, True)"
  by (simp add: drawdown_adjustments_def RISK_LIMITS_def)

lemma drawdown_adjustments_soft:
  "d \<le> 15 / 100 \<Longrightarrow> drawdown_adjustments d = (1, 1, False)"
  by (simp add: drawdown_adjustments_def RISK_LIMITS_def)

lemma drawdown_adjustments_band:
  assumes "15 / 100 < d" "d < 25 / 100"
  shows "drawdown_adjustments d =
     (1 + ((d - 15 / 100) / (25 / 100 - 15 / 100))\<^sup>2 * (15 / 10),
      max (2 / 10) (1 - ((d - 15 / 100) / (25 / 100 - 15 / 100))\<^sup>2 * (7 / 10)), False)"
proof -
  have "0 \<le> (d - 15 / 100) / (25 / 100 - 15 / 100)"
    and "(d - 15 / 100) / (25 / 100 - 15 / 100) \<le> 1"
    using assms by simp_all
  then show ?thesis
    using assms
    by (simp add: drawdown_adjustments_def RISK_LIMITS_def DRAWDOWN_SPREAD_MULT_def
        DRAWDOWN_SIZE_REDUCTION_def Let_def power2_eq_square)
qed


lemma curved_mono:
  assumes "15 / 100 < d1" "d1 \<le> d2" "d2 < 25 / 100"
  shows "((d1 - 15 / 100) / (25 / 100 - 15 / 100))\<^sup>2 \<le> ((d2 - 15 / 100) / (25 / 100 - 15 / 100) :: real)\<^sup>2"
  using assms by (intro power_mono) simp_all

lemma curved_bounds:
  assumes "15 / 100 < d" "d < 25 / 100"
  shows "0 \<le> ((d - 15 / 100) / (25 / 100 - 15 / 100) :: real)\<^sup>2"
    and "((d - 15 / 100) / (25 / 100 - 15 / 100) :: real)\<^sup>2 \<le> 1"
proof -
  have "0 \<le> (d - 15 / 100) / (25 / 100 - 15 / 100)" "(d - 15 / 100) / (25 / 100 - 15 / 100) \<le> 1"
    using assms by simp_all
  then show "0 \<le> ((d - 15 / 100) / (25 / 100 - 15 / 100) :: real)\<^sup>2"
    and "((d - 15 / 100) / (25 / 100 - 15 / 100) :: real)\<^sup>2 \<le> 1"
    by (simp_all add: power_le_one)
qed

lemma size_scale_mono:
  assumes "d1 \<le> d2"
  shows "fst (snd (drawdown_adjustments d2)) \<le> fst (snd (drawdown_adjustments d1))"
proof -
  consider "25 / 100 \<le> d2" "25 / 100 \<le> d1" | "25 / 100 \<le> d2" "d1 \<le> 15 / 100"
    | "25 / 100 \<le> d2" "15 / 100 < d1" "d1 < 25 / 100"
    | "d2 \<le> 15 / 100" | "15 / 100 < d2" "d2 < 25 / 100" "d1 \<le> 15 / 100"
    | "15 / 100 < d2" "d2 < 25 / 100" "15 / 100 < d1"
    by linarith
  then show ?thesis
  proof cases
    case 1
    then show ?thesis by (simp add: drawdown_adjustments_hard)
  next
    case 2
    then show ?thesis by (simp add: drawdown_adjustments_hard drawdown_adjustments_soft)
  next
    case 3
    then show ?thesis by (simp add: drawdown_adjustments_hard drawdown_adjustments_band)
  next
    case 4
    with assms have "d1 \<le> 15 / 100" by simp
    with 4 show ?thesis by (simp add: drawdown_adjustments_soft)
  next
    case 5
    then show ?thesis
      using curved_bounds(1) [of d2]
      by (simp add: drawdown_adjustments_soft drawdown_adjustments_band)
  next
    case 6
    with assms have d1: "d1 < 25 / 100" by simp
    have c: "((d1 - 15 / 100) / (25 / 100 - 15 / 100))\<^sup>2
               \<le> ((d2 - 15 / 100) / (25 / 100 - 15 / 100))\<^sup>2"
      using 6 assms by (intro curved_mono)
    have "max (2 / 10) (1 - ((d2 - 15 / 100) / (25 / 100 - 15 / 100))\<^sup>2 * (7 / 10))
            \<le> max (2 / 10) (1 - ((d1 - 15 / 100) / (25 / 100 - 15 / 100))\<^sup>2 * (7 / 10))"
      using c by (intro max.mono) simp_all
    then show ?thesis
      using 6 d1 by (simp only: drawdown_adjustments_band fst_conv snd_conv)
  qed
qed

lemma spread_scale_mono:
  assumes "d1 \<le> d2" "d2 < 25 / 100"
  shows "fst (drawdown_adjustments d1) \<le> fst (drawdown_adjustments d2)"
proof -
  consider "d2 \<le> 15 / 100" | "15 / 100 < d2" "d1 \<le> 15 / 100" | "15 / 100 < d2" "15 / 100 < d1"
    by linarith
  then show ?thesis
  proof cases
    case 1
    with assms have "d1 \<le> 15 / 100" by simp
    with 1 show ?thesis by (simp add: drawdown_adjustments_soft)
  next
    case 2
    then show ?thesis
      using assms curved_bounds(1) [of d2]
      by (simp add: drawdown_adjustments_soft drawdown_adjustments_band)
  next
    case 3
    with assms have d1: "d1 < 25 / 100" by simp
    from 3 d1 assms show ?thesis
      using curved_mono [of d1 d2]
      by (simp add: drawdown_adjustments_band)
  qed
qed

lemma throttled_iff: "snd (snd (drawdown_adjustments d)) \<longleftrightarrow> 25 / 100 \<le> d"
  using drawdown_adjustments_hard [of d] drawdown_adjustments_soft [of d]
      drawdown_adjustments_band [of d]
  by (cases "25 / 100 \<le> d"; cases "d \<le> 15 / 100") simp_all

lemma size_zero_iff: "fst (snd (drawdown_adjustments d)) = 0 \<longleftrightarrow> 25 / 100 \<le> d"
  using drawdown_adjustments_hard [of d] drawdown_adjustments_soft [of d]
      drawdown_adjustments_band [of d]
  by (cases "25 / 100 \<le> d"; cases "d \<le> 15 / 100") simp_all

text \<open>
  Claim C6 as stated asks \<open>spread_scale\<close> to be non-decreasing for all \<open>d1 \<le> d2\<close>. It is not:
  just below the hard stop the interpolation has passed 2.0 (it tends to 2.5), and at the
  hard stop the function returns the constant 2.0.
\<close>

theorem drawdown_spread_not_monotone:
  "(24 / 100 :: real) \<le> 25 / 100
   \<and> fst (drawdown_adjustments (25 / 100)) < fst (drawdown_adjustments (24 / 100))"
  using drawdown_adjustments_band [of "24 / 100"] drawdown_adjustments_hard [of "25 / 100"]
  by (simp add: power2_eq_square)

text \<open>
  Claim C6, amended. \<open>size_scale\<close> is non-increasing for all \<open>d1 \<le> d2\<close>; \<open>spread_scale\<close> is
  non-decreasing for \<open>d1 \<le> d2\<close> below the hard stop (\<open>d2 < 0.25\<close>) and is the constant 2.0
  from the hard stop on; \<open>throttled\<close> holds exactly when \<open>d \<ge> 0.25\<close>; and \<open>size_scale = 0\<close>
  exactly when \<open>throttled\<close>.
\<close>

theorem drawdown_adjustments_monotone:
  "(d1 \<le> d2 \<longrightarrow> fst (snd (drawdown_adjustments d2)) \<le> fst (snd (drawdown_adjustments d1)))
   \<and> (d1 \<le> d2 \<and> d2 < 25 / 100 \<longrightarrow> fst (drawdown_adjustments d1) \<le> fst (drawdown_adjustments d2))
   \<and> (25 / 100 \<le> d2 \<longrightarrow> fst (drawdown_adjustments d2) = 2)
   \<and> (snd (snd (drawdown_adjustments d)) \<longleftrightarrow> 25 / 100 \<le> d)
   \<and> (fst (snd (drawdown_adjustments d)) = 0 \<longleftrightarrow> snd (snd (drawdown_adjustments d)))"
  using size_scale_mono [of d1 d2] spread_scale_mono [of d1 d2] throttled_iff [of d]
    size_zero_iff [of d] drawdown_adjustments_hard [of d2]
  by simp

theorem drawdown_adjustments_monotone_witness:
  "fst (snd (drawdown_adjustments (20 / 100))) \<le> fst (snd (drawdown_adjustments (16 / 100)))
   \<and> fst (drawdown_adjustments (16 / 100)) \<le> fst (drawdown_adjustments (20 / 100))
   \<and> fst (drawdown_adjustments (30 / 100)) = 2
   \<and> snd (snd (drawdown_adjustments (30 / 100)))
   \<and> fst (snd (drawdown_adjustments (30 / 100))) = 0"
  using drawdown_adjustments_monotone [of "16 / 100" "20 / 100" "30 / 100"]
    drawdown_adjustments_monotone [of "16 / 100" "30 / 100" "30 / 100"]
  by simp

subsection \<open>Fill accounting\<close>

lemma init_positions:
  "smb \<in> set ALL_SYMBOLS \<Longrightarrow>
     positions init_strategy smb = Some \<lparr>pos_symbol = smb, position = 0, vwap = 0\<rparr>"
  by (auto simp: init_strategy_def ALL_SYMBOLS_def ETF_SYMBOL_def BASKET_SYMBOLS_def)

lemma init_pnl: "pnl init_strategy = \<lparr>realized = 0, unrealized = 0, equity_high_watermark = 0\<rparr>"
  by (simp add: init_strategy_def)

text \<open>The effect of one fill on a known symbol, field by field.\<close>

lemma register_fill_known:
  assumes "positions s smb = Some st"
  shows "\<exists>s'. register_fill smb sd sz px s = Inr s'
     \<and> (\<forall>other. other \<noteq> smb \<longrightarrow> positions s' other = positions s other)
     \<and> market s' = market s \<and> volatility_bps s' = volatility_bps s \<and> last_mid s' = last_mid s
     \<and> unrealized (pnl s') = unrealized (pnl s)
     \<and> equity_high_watermark (pnl s') = equity_high_watermark (pnl s)
     \<and> (\<exists>st'. positions s' smb = Some st' \<and> pos_symbol st' = pos_symbol st
           \<and> position st' = position st + (if sd = BID then sz else - sz))"
  using assms by (simp add: register_fill_def Let_def)

lemma register_fill_unknown:
  "positions s smb = None \<Longrightarrow> register_fill smb sd sz px s = Inl KeyError"
  by (simp add: register_fill_def)

text \<open>
  Claim C10. A fill \<open>(smb, sd, sz, px)\<close> that \<open>register_fill\<close> accepts changes only the
  \<open>PositionState\<close> of \<open>smb\<close> (whose symbol field it keeps) and \<open>pnl.realized\<close>: the position
  of every other symbol, \<open>pnl.unrealized\<close>, \<open>pnl.equity_high_watermark\<close> and the other
  tables of the coordinator are as before. (A fill on an unknown symbol raises before
  any write.)
\<close>

theorem register_fill_frame:
  assumes "register_fill smb sd sz px s = Inr s'"
  shows "(\<forall>other. other \<noteq> smb \<longrightarrow> positions s' other = positions s other)
     \<and> unrealized (pnl s') = unrealized (pnl s)
     \<and> equity_high_watermark (pnl s') = equity_high_watermark (pnl s)
     \<and> market s' = market s \<and> volatility_bps s' = volatility_bps s \<and> last_mid s' = last_mid s
     \<and> (\<exists>st st'. positions s smb = Some st \<and> positions s' smb = Some st'
           \<and> pos_symbol st' = pos_symbol st)"
proof (cases "positions s smb")
  case None
  with assms show ?thesis by (simp add: register_fill_unknown)
next
  case (Some st)
  from register_fill_known [OF Some, of sd sz px] assms Some show ?thesis
    by auto
qed

theorem register_fill_frame_witness:
  "\<exists>s'. register_fill ''ETF'' BID 10 100 init_strategy = Inr s'
     \<and> positions s' ''XYZ'' = positions init_strategy ''XYZ''
     \<and> unrealized (pnl s') = unrealized (pnl init_strategy)
     \<and> equity_high_watermark (pnl s') = equity_high_watermark (pnl init_strategy)"
proof -
  have "positions init_strategy ''ETF'' = Some \<lparr>pos_symbol = ''ETF'', position = 0, vwap = 0\<rparr>"
    by (simp add: init_strategy_def ALL_SYMBOLS_def ETF_SYMBOL_def BASKET_SYMBOLS_def)
  then obtain s' where s': "register_fill ''ETF'' BID 10 100 init_strategy = Inr s'"
    using register_fill_known by blast
  from register_fill_frame [OF s'] s' show ?thesis by simp
qed

text \<open>
  Claim C7. From the flat state, on any symbol of the universe: buy 10 @ 100, sell 5 @ 110,
  sell 5 @ 120 ends with position 0, realized 150 and VWAP 120; buy 10 @ 100, sell 15 @ 110
  ends with position -5, realized 100 and VWAP 110.
\<close>

theorem fill_sequences:
  assumes "smb \<in> set ALL_SYMBOLS"
  shows "(\<exists>s. register_fills init_strategy
              [(smb, BID, 10, 100), (smb, ASK, 5, 110), (smb, ASK, 5, 120)] = Inr s
            \<and> map_option position (positions s smb) = Some 0
            \<and> realized (pnl s) = 150
            \<and> map_option vwap (positions s smb) = Some 120)
       \<and> (\<exists>s. register_fills init_strategy [(smb, BID, 10, 100), (smb, ASK, 15, 110)] = Inr s
            \<and> map_option position (positions s smb) = Some (- 5)
            \<and> realized (pnl s) = 100
            \<and> map_option vwap (positions s smb) = Some 110)"
  using assms by (simp add: register_fill_def init_positions init_pnl Let_def)

theorem fill_sequences_witness:
  "(\<exists>s. register_fills init_strategy
              [(''ETF'', BID, 10, 100), (''ETF'', ASK, 5, 110), (''ETF'', ASK, 5, 120)] = Inr s
            \<and> map_option position (positions s ''ETF'') = Some 0
            \<and> realized (pnl s) = 150
            \<and> map_option vwap (positions s ''ETF'') = Some 120)
       \<and> (\<exists>s. register_fills init_strategy [(''ETF'', BID, 10, 100), (''ETF'', ASK, 15, 110)] = Inr s
            \<and> map_option position (positions s ''ETF'') = Some (- 5)
            \<and> realized (pnl s) = 100
            \<and> map_option vwap (positions s ''ETF'') = Some 110)"
  using fill_sequences [of "''ETF''"] by (simp add: ALL_SYMBOLS_def ETF_SYMBOL_def)

text \<open>
  Claim C4 as stated (VWAP is zero exactly when the position is zero) fails in both
  directions. Buying 10 @ 100 and selling 10 @ 110 leaves position 0 with VWAP 110: a fill
  that closes the position sets VWAP to its price. Buying 10 @ 0 leaves position 10 with
  VWAP 0.
\<close>

theorem vwap_zero_iff_flat_fails:
  "(case register_fills init_strategy [(''ETF'', BID, 10, 100), (''ETF'', ASK, 10, 110)] of
      Inl e \<Rightarrow> False
    | Inr s \<Rightarrow> map_option (\<lambda>st. (position st, vwap st)) (positions s ''ETF'') = Some (0, 110))
   \<and> (case register_fills init_strategy [(''ETF'', BID, 10, 0)] of
      Inl e \<Rightarrow> False
    | Inr s \<Rightarrow> map_option (\<lambda>st. (position st, vwap st)) (positions s ''ETF'') = Some (10, 0))"
  by (simp add: register_fill_def init_strategy_def ALL_SYMBOLS_def ETF_SYMBOL_def
      BASKET_SYMBOLS_def Let_def)

lemma wavg_pos:
  fixes v px :: real and p q :: int
  assumes "0 < px" "0 < q" "0 \<le> p" "p \<noteq> 0 \<longrightarrow> 0 < v"
  shows "0 < (v * of_int p + px * of_int q) / of_int (p + q)"
proof -
  have "0 \<le> v * of_int p"
  proof (cases "p = 0")
    case True
    then show ?thesis by simp
  next
    case False
    with assms show ?thesis by simp
  qed
  moreover have "0 < px * of_int q" using assms by simp
  moreover have "(0::real) < of_int (p + q)" using assms by simp
  ultimately show ?thesis by (intro divide_pos_pos) linarith+
qed

lemma register_fill_step:
  assumes st: "positions s smb = Some st"
    and sz: "0 < sz" and px: "0 < px"
    and inv: "position st \<noteq> 0 \<longrightarrow> 0 < vwap st"
  shows "\<exists>s' st'. register_fill smb sd sz px s = Inr s' \<and> positions s' smb = Some st'
     \<and> (position st' \<noteq> 0 \<longrightarrow> 0 < vwap st') \<and> (position st' = 0 \<longrightarrow> vwap st' = px)"
proof -
  define q where "q = (if sd = BID then sz else - sz)"
  define p where "p = position st"
  define W where "W = (vwap st * of_int \<bar>p\<bar> + px * of_int \<bar>q\<bar>) / of_int (\<bar>p\<bar> + \<bar>q\<bar>)"
  define V where "V =
     (if p = 0 \<or> (p > 0 \<and> q > 0) \<or> (p < 0 \<and> q < 0) then
        if \<bar>p\<bar> + \<bar>q\<bar> > 0 then W else vwap st
      else if p + q = 0 then px
      else if (p + q > 0 \<and> q > 0) \<or> (p + q < 0 \<and> q < 0) then px
      else vwap st)"
  have q0: "q \<noteq> 0" using sz by (auto simp: q_def)
  have W: "0 < W"
    unfolding W_def using px q0 inv by (intro wavg_pos) (auto simp: p_def)
  have V: "(p + q \<noteq> 0 \<longrightarrow> 0 < V) \<and> (p + q = 0 \<longrightarrow> V = px)"
  proof (cases "p = 0 \<or> (p > 0 \<and> q > 0) \<or> (p < 0 \<and> q < 0)")
    case True
    then have "\<bar>p\<bar> + \<bar>q\<bar> > 0" "p + q \<noteq> 0" using q0 by auto
    with True W show ?thesis by (simp add: V_def)
  next
    case False
    then have "p \<noteq> 0" by simp
    with inv have "0 < vwap st" by (simp add: p_def)
    with False px W show ?thesis by (auto simp: V_def)
  qed
  have "\<exists>s'. register_fill smb sd sz px s = Inr s'
          \<and> positions s' = (positions s)(smb \<mapsto> st\<lparr>vwap := V, position := p + q\<rparr>)"
    unfolding V_def W_def p_def q_def register_fill_def Let_def using st
    by (simp split del: if_split)
  with V show ?thesis by auto
qed

lemma register_fill_other:
  assumes "register_fill smb2 sd sz px s = Inr s'" "smb2 \<noteq> smb"
  shows "positions s' smb = positions s smb"
  using assms by (auto simp: register_fill_def Let_def split: option.splits)

lemma register_fills_inv:
  assumes "register_fills s fills = Inr s'"
    and "\<forall>f \<in> set fills. 0 < fst (snd (snd f)) \<and> 0 < snd (snd (snd f))"
    and "positions s smb = Some st"
    and "position st \<noteq> 0 \<longrightarrow> 0 < vwap st"
    and "position st = 0 \<longrightarrow> vwap st = lastp"
  shows "\<exists>st'. positions s' smb = Some st'
     \<and> (position st' \<noteq> 0 \<longrightarrow> 0 < vwap st')
     \<and> (position st' = 0 \<longrightarrow>
           vwap st' = (case filter (\<lambda>f. fst f = smb) fills of
                         [] \<Rightarrow> lastp
                       | f # fs \<Rightarrow> snd (snd (snd (last (f # fs))))))"
  using assms
proof (induction fills arbitrary: s st lastp)
  case Nil
  then show ?case by simp
next
  case (Cons f fills)
  obtain smb2 sd sz px where f: "f = (smb2, sd, sz, px)" by (cases f) auto
  from Cons.prems(1) f obtain s1 where
    s1: "register_fill smb2 sd sz px s = Inr s1" and rest: "register_fills s1 fills = Inr s'"
    by (auto split: sum.splits)
  from Cons.prems(2) f have pos: "0 < sz" "0 < px"
    and all: "\<forall>f \<in> set fills. 0 < fst (snd (snd f)) \<and> 0 < snd (snd (snd f))"
    by auto
  show ?case
  proof (cases "smb2 = smb")
    case True
    from register_fill_step [OF Cons.prems(3) pos Cons.prems(4), of sd] s1 True
    obtain st1 where st1: "positions s1 smb = Some st1"
      "position st1 \<noteq> 0 \<longrightarrow> 0 < vwap st1" "position st1 = 0 \<longrightarrow> vwap st1 = px"
      by auto
    from Cons.IH [OF rest all st1] obtain st' where
      "positions s' smb = Some st'" "position st' \<noteq> 0 \<longrightarrow> 0 < vwap st'"
      "position st' = 0 \<longrightarrow>
           vwap st' = (case filter (\<lambda>f. fst f = smb) fills of
                         [] \<Rightarrow> px
                       | f # fs \<Rightarrow> snd (snd (snd (last (f # fs)))))"
      by blast
    then show ?thesis using f True by (auto split: list.splits)
  next
    case False
    from register_fill_other [OF s1 False] Cons.prems(3)
    have st1: "positions s1 smb = Some st" by simp
    from Cons.IH [OF rest all st1 Cons.prems(4) Cons.prems(5)] f False
    show ?thesis by simp
  qed
qed

lemma register_fills_None:
  "register_fills s fills = Inr s' \<Longrightarrow> positions s smb = None \<Longrightarrow> positions s' smb = None"
proof (induction fills arbitrary: s)
  case Nil
  then show ?case by simp
next
  case (Cons f fills)
  obtain smb2 sd sz px where f: "f = (smb2, sd, sz, px)" by (cases f) auto
  from Cons.prems(1) f obtain s1 where
    s1: "register_fill smb2 sd sz px s = Inr s1" and rest: "register_fills s1 fills = Inr s'"
    by (auto split: sum.splits)
  have "smb2 \<noteq> smb" using s1 Cons.prems(2) by (auto simp: register_fill_def)
  from register_fill_other [OF s1 this] Cons.prems(2) have "positions s1 smb = None" by simp
  from Cons.IH [OF rest this] show ?case .
qed

text \<open>
  Claim C4, amended. For every state reached from the flat state by folding fills of
  positive size and positive price: a non-zero position has a positive VWAP (so VWAP 0
  implies position 0), and a zero position has the price of the last fill on that symbol
  as its VWAP, which is 0 only when no fill on the symbol has been folded.
\<close>

theorem vwap_position_invariant:
  assumes "register_fills init_strategy fills = Inr s"
    and "\<forall>f \<in> set fills. 0 < fst (snd (snd f)) \<and> 0 < snd (snd (snd f))"
    and "positions s smb = Some st"
  shows "(position st \<noteq> 0 \<longrightarrow> 0 < vwap st)
     \<and> (position st = 0 \<longrightarrow>
           vwap st = (case filter (\<lambda>f. fst f = smb) fills of
                        [] \<Rightarrow> 0
                      | f # fs \<Rightarrow> snd (snd (snd (last (f # fs))))))"
proof -
  from assms(1,3) obtain st0 where st0: "positions init_strategy smb = Some st0"
    using register_fills_None [of init_strategy fills s smb] by (cases "positions init_strategy smb") auto
  then have "smb \<in> set ALL_SYMBOLS"
    by (auto simp: init_strategy_def dest!: map_of_SomeD)
  with st0 init_positions have flat: "position st0 = 0" "vwap st0 = 0" by auto
  from register_fills_inv [OF assms(1,2) st0, of 0] flat assms(3)
  show ?thesis by auto
qed

theorem vwap_position_invariant_witness:
  "\<exists>s st. register_fills init_strategy [(''ETF'', BID, 10, 100), (''ETF'', ASK, 10, 110)] = Inr s
     \<and> positions s ''ETF'' = Some st \<and> position st = 0 \<and> vwap st = 110"
proof -
  let ?fills = "[(''ETF'', BID, 10, 100), (''ETF'', ASK, 10 :: int, 110 :: real)]"
  obtain s st where s: "register_fills init_strategy ?fills = Inr s"
    and st: "positions s ''ETF'' = Some st" and p: "position st = 0"
    by (simp add: register_fill_def init_strategy_def ALL_SYMBOLS_def ETF_SYMBOL_def
        BASKET_SYMBOLS_def Let_def)
  have "\<forall>f \<in> set ?fills. 0 < fst (snd (snd f)) \<and> 0 < snd (snd (snd f))" by simp
  from vwap_position_invariant [OF s this st] p have "vwap st = 110" by simp
  with s st p show ?thesis by blast
qed

subsection \<open>Mispricing asymmetry\<close>







subsection \<open>Ladder construction\<close>






subsection \<open>The action-rate limiter\<close>

lemma reserve_step_cases:
  obtains (reset) "1 \<le> now - window_start st"
      "reserve_step now st = (True, st\<lparr>window_start := now, actions_this_window := 1\<rparr>)"
  | (room) "now - window_start st < 1" "actions_this_window st < MAX_ACTIONS_PER_SECOND"
      "reserve_step now st = (True, st\<lparr>actions_this_window := actions_this_window st + 1\<rparr>)"
  | (full) "now - window_start st < 1" "MAX_ACTIONS_PER_SECOND \<le> actions_this_window st"
      "reserve_step now st = (False, st)"
proof (cases "1 \<le> now - window_start st")
  case True
  then have "reserve_step now st = (True, st\<lparr>window_start := now, actions_this_window := 1\<rparr>)"
    by (simp add: reserve_step_def Let_def MAX_ACTIONS_PER_SECOND_def)
  with True show ?thesis by (rule reset)
next
  case False
  show ?thesis
  proof (cases "actions_this_window st < MAX_ACTIONS_PER_SECOND")
    case True
    with False show ?thesis
      by (intro room) (simp_all add: reserve_step_def Let_def)
  next
    case nofree: False
    with False show ?thesis
      by (intro full) (simp_all add: reserve_step_def Let_def)
  qed
qed

text \<open>Every slot is granted inside its window, and a later window starts at least one
  second after the current one.\<close>

lemma grants_tags:
  assumes "sorted (window_start st # readings)"
  shows "\<forall>g \<in> set (grants readings st).
           (fst g = window_start st \<or> window_start st + 1 \<le> fst g)
           \<and> fst g \<le> snd g \<and> snd g < fst g + 1"
  using assms
proof (induction readings arbitrary: st)
  case Nil
  then show ?case by simp
next
  case (Cons now rest)
  from Cons.prems have le: "window_start st \<le> now" and srt: "sorted (now # rest)" by simp_all
  show ?case
  proof (cases now st rule: reserve_step_cases)
    case reset
    let ?st' = "st\<lparr>window_start := now, actions_this_window := 1\<rparr>"
    from srt have "sorted (window_start ?st' # rest)" by simp
    from Cons.IH [OF this] reset show ?thesis by auto
  next
    case room
    let ?st' = "st\<lparr>actions_this_window := actions_this_window st + 1\<rparr>"
    from srt le have "sorted (window_start ?st' # rest)" by auto
    from Cons.IH [OF this] room le show ?thesis by auto
  next
    case full
    from srt le have "sorted (window_start st # rest)" by auto
    from Cons.IH [OF this] full show ?thesis by auto
  qed
qed

lemma filter_none: "\<forall>x \<in> set xs. \<not> Q x \<Longrightarrow> filter Q xs = []"
  by (induction xs) auto

text \<open>Window starts that lie within less than a second of each other are one and the
  same window, and a window grants no more than the budget.\<close>

lemma grants_per_window:
  assumes "sorted (window_start st # readings)"
    and "actions_this_window st \<le> MAX_ACTIONS_PER_SECOND"
    and "\<forall>a b. P a \<and> P b \<longrightarrow> \<bar>a - b\<bar> < (1::real)"
  shows "length (filter (\<lambda>g. P (fst g)) (grants readings st))
           + (if P (window_start st) then actions_this_window st else 0)
         \<le> MAX_ACTIONS_PER_SECOND"
  using assms(1,2)
proof (induction readings arbitrary: st)
  case Nil
  then show ?case by simp
next
  case (Cons now rest)
  from Cons.prems have le: "window_start st \<le> now" and srt: "sorted (now # rest)" by simp_all
  show ?case
  proof (cases now st rule: reserve_step_cases)
    case reset
    let ?st' = "st\<lparr>window_start := now, actions_this_window := 1\<rparr>"
    have s': "sorted (window_start ?st' # rest)" using srt by simp
    have a': "actions_this_window ?st' \<le> MAX_ACTIONS_PER_SECOND"
      by (simp add: MAX_ACTIONS_PER_SECOND_def)
    have gr: "grants (now # rest) st = (now, now) # grants rest ?st'"
      using reset by simp
    show ?thesis
    proof (cases "P (window_start st)")
      case True
      have "\<forall>g \<in> set (grants (now # rest) st). \<not> P (fst g)"
      proof
        fix g assume g: "g \<in> set (grants (now # rest) st)"
        then have "g \<in> set ((now, now) # grants rest ?st')"
          unfolding gr .
        then have "fst g = now \<or> now + 1 \<le> fst g"
          using grants_tags [OF s'] by auto
        with reset(1) have "1 \<le> \<bar>fst g - window_start st\<bar>" by auto
        with assms(3) True show "\<not> P (fst g)" by force
      qed
      then have "filter (\<lambda>g. P (fst g)) (grants (now # rest) st) = []"
        by (rule filter_none)
      with True Cons.prems(2) show ?thesis by simp
    next
      case False
      from Cons.IH [OF s' a'] False gr show ?thesis by auto
    qed
  next
    case room
    let ?st' = "st\<lparr>actions_this_window := actions_this_window st + 1\<rparr>"
    have s': "sorted (window_start ?st' # rest)" using srt le by auto
    have a': "actions_this_window ?st' \<le> MAX_ACTIONS_PER_SECOND" using room by simp
    from Cons.IH [OF s' a'] room show ?thesis by auto
  next
    case full
    have s': "sorted (window_start st # rest)" using srt le by auto
    from Cons.IH [OF s' Cons.prems(2)] full show ?thesis by simp
  qed
qed

lemma filter_split_le:
  "\<forall>x \<in> set xs. Q x \<longrightarrow> A x \<or> B x \<Longrightarrow>
     length (filter Q xs) \<le> length (filter A xs) + length (filter B xs)"
  by (induction xs) auto

text \<open>
  Claim C1, amended. Over any sequence of monotonic clock readings, at most
  \<open>MAX_ACTIONS_PER_SECOND\<close> (95) slots are granted in any one limiter window (the grants that
  share a \<open>_window_start\<close>; windows start at least one second apart), and hence at most
  \<open>2 * 95 = 190\<close> in any rolling one-second interval \<open>[t, t + 1)\<close>. The sequence of
  readings covers every interleaving of callers: an iteration of the loop has no
  suspension point, and \<open>sync_symbol\<close> and \<open>cancel_all\<close> hold the lock.
\<close>

theorem action_budget_per_window:
  assumes "sorted (window_start st # readings)"
    and "actions_this_window st \<le> MAX_ACTIONS_PER_SECOND"
  shows "length (filter (\<lambda>g. fst g = w) (grants readings st)) \<le> MAX_ACTIONS_PER_SECOND
     \<and> length (filter (\<lambda>g. t \<le> snd g \<and> snd g < t + 1) (grants readings st))
          \<le> 2 * MAX_ACTIONS_PER_SECOND"
proof -
  let ?G = "grants readings st"
  have one: "length (filter (\<lambda>g. fst g = w) ?G) \<le> MAX_ACTIONS_PER_SECOND"
    using grants_per_window [OF assms, of "\<lambda>a. a = w"] by simp
  have lo: "length (filter (\<lambda>g. t - 1 < fst g \<and> fst g \<le> t) ?G) \<le> MAX_ACTIONS_PER_SECOND"
    using grants_per_window [OF assms, of "\<lambda>a. t - 1 < a \<and> a \<le> t"] by fastforce
  have hi: "length (filter (\<lambda>g. t < fst g \<and> fst g < t + 1) ?G) \<le> MAX_ACTIONS_PER_SECOND"
    using grants_per_window [OF assms, of "\<lambda>a. t < a \<and> a < t + 1"] by fastforce
  have "\<forall>g \<in> set ?G. t \<le> snd g \<and> snd g < t + 1 \<longrightarrow>
          (t - 1 < fst g \<and> fst g \<le> t) \<or> (t < fst g \<and> fst g < t + 1)"
    using grants_tags [OF assms(1)] by fastforce
  from filter_split_le [OF this] lo hi one show ?thesis by linarith
qed


lemma grants_burst:
  assumes "now - window_start st < 1" "actions_this_window st + n \<le> MAX_ACTIONS_PER_SECOND"
  shows "grants (replicate n now @ rest) st =
           replicate n (window_start st, now)
             @ grants rest (st\<lparr>actions_this_window := actions_this_window st + n\<rparr>)"
  using assms
proof (induction n arbitrary: st)
  case 0
  then show ?case by simp
next
  case (Suc n)
  let ?st' = "st\<lparr>actions_this_window := actions_this_window st + 1\<rparr>"
  have step: "reserve_step now st = (True, ?st')"
    using Suc.prems by (simp add: reserve_step_def Let_def)
  have "grants (replicate n now @ rest) ?st' =
          replicate n (window_start ?st', now)
            @ grants rest (?st'\<lparr>actions_this_window := actions_this_window ?st' + n\<rparr>)"
    using Suc.prems by (intro Suc.IH) simp_all
  with step show ?case by simp
qed

lemma two_bursts:
  "grants (replicate 95 (1 / 2) @ replicate 95 1) (init_manager c 0 clk) =
     replicate 95 (0, 1 / 2) @ replicate 95 (1, 1)"
proof -
  let ?st0 = "init_manager c 0 clk"
  let ?st1 = "?st0\<lparr>actions_this_window := actions_this_window ?st0 + 95\<rparr>"
  let ?st2 = "?st1\<lparr>window_start := 1, actions_this_window := 1\<rparr>"
  have a: "grants (replicate 95 (1 / 2) @ replicate 95 1) ?st0 =
             replicate 95 (window_start ?st0, 1 / 2) @ grants (replicate 95 1) ?st1"
    by (intro grants_burst) (simp_all add: init_manager_def MAX_ACTIONS_PER_SECOND_def)
  have r: "replicate 95 (1::real) = 1 # (replicate 94 1 @ [])"
    by (simp add: numeral_eq_Suc)
  have s: "reserve_step 1 ?st1 = (True, ?st2)"
    by (simp add: reserve_step_def Let_def init_manager_def MAX_ACTIONS_PER_SECOND_def)
  have b: "grants (replicate 94 1 @ []) ?st2 =
             replicate 94 (window_start ?st2, 1)
               @ grants [] (?st2\<lparr>actions_this_window := actions_this_window ?st2 + 94\<rparr>)"
    by (intro grants_burst) (simp_all add: MAX_ACTIONS_PER_SECOND_def)
  have "grants (replicate 95 1) ?st1 = (1, 1) # replicate 94 (1, 1)"
    unfolding r using s b by simp
  also have "\<dots> = replicate 95 (1, 1)" by (simp add: numeral_eq_Suc)
  finally show ?thesis using a by (simp add: init_manager_def)
qed

text \<open>
  Claim C1 as stated bounds every rolling one-second interval by 95. The limiter counts
  in fixed windows that restart at the first request a second or more after the last
  restart: 95 slots granted at time 0.5 in the window started at 0, then 95 more at time
  1.0, which restarts the window, are 190 grants inside \<open>[0.5, 1.5)\<close>.
\<close>

theorem rolling_window_exceeded:
  "sorted (window_start (init_manager (init_client (\<lambda>n. None)) 0 [])
             # replicate 95 (1 / 2) @ replicate 95 1)
   \<and> length (filter (\<lambda>g. 1 / 2 \<le> snd g \<and> snd g < 1 / 2 + 1)
        (grants (replicate 95 (1 / 2) @ replicate 95 1)
           (init_manager (init_client (\<lambda>n. None)) 0 []))) = 190"
  by (simp add: two_bursts sorted_append) (simp add: init_manager_def)

theorem action_budget_per_window_witness:
  "length (filter (\<lambda>g. fst g = 0)
        (grants (replicate 95 (1 / 2) @ replicate 95 1)
           (init_manager (init_client (\<lambda>n. None)) 0 []))) \<le> MAX_ACTIONS_PER_SECOND
   \<and> length (filter (\<lambda>g. 1 / 2 \<le> snd g \<and> snd g < 1 / 2 + 1)
        (grants (replicate 95 (1 / 2) @ replicate 95 1)
           (init_manager (init_client (\<lambda>n. None)) 0 []))) \<le> 2 * MAX_ACTIONS_PER_SECOND"
proof -
  let ?st = "init_manager (init_client (\<lambda>n. None)) 0 []"
  have "sorted (window_start ?st # replicate 95 (1 / 2) @ replicate 95 1)"
    by (simp add: sorted_append init_manager_def)
  moreover have "actions_this_window ?st \<le> MAX_ACTIONS_PER_SECOND"
    by (simp add: init_manager_def)
  ultimately show ?thesis
    by (rule action_budget_per_window)
qed

text \<open>
  A call of \<open>_reserve_action_slot\<close> that returns has consumed the readings of its
  iterations, and over those readings exactly its last iteration was granted a slot.
\<close>

lemma reserve_step_clock:
  "reserve_step now (st\<lparr>clock := c\<rparr>) =
     (case reserve_step now st of (b, st') \<Rightarrow> (b, st'\<lparr>clock := c\<rparr>))"
  by (simp add: reserve_step_def Let_def)

lemma grants_clock: "grants readings (st\<lparr>clock := c\<rparr>) = grants readings st"
proof (induction readings arbitrary: st)
  case Nil
  then show ?case by simp
next
  case (Cons now rest)
  obtain b s1 where s1: "reserve_step now st = (b, s1)" by (cases "reserve_step now st")
  then have "reserve_step now (st\<lparr>clock := c\<rparr>) = (b, s1\<lparr>clock := c\<rparr>)"
    by (simp add: reserve_step_clock)
  with s1 Cons.IH [of s1] show ?case by (cases b) simp_all
qed

lemma reserve_loop_grants:
  assumes "reserve_loop clk st = (Ok (), st')"
  shows "\<exists>waits now. clk = waits @ now # clock st'
     \<and> grants (waits @ [now]) st = [(window_start st', now)]"
  using assms
proof (induction clk arbitrary: st)
  case Nil
  then show ?case by simp
next
  case (Cons now rest)
  obtain b s1 where s1: "reserve_step now st = (b, s1)" by (cases "reserve_step now st")
  then have s1': "reserve_step now (st\<lparr>clock := rest\<rparr>) = (b, s1\<lparr>clock := rest\<rparr>)"
    by (simp add: reserve_step_clock)
  show ?case
  proof (cases b)
    case True
    with Cons.prems s1' have "st' = s1\<lparr>clock := rest\<rparr>" by simp
    with s1 True have "now # rest = [] @ now # clock st'"
      "grants ([] @ [now]) st = [(window_start st', now)]" by simp_all
    then show ?thesis by blast
  next
    case False
    with Cons.prems s1' have "reserve_loop rest (s1\<lparr>clock := rest\<rparr>) = (Ok (), st')" by simp
    from Cons.IH [OF this] obtain waits now' where
      w: "rest = waits @ now' # clock st'"
      and g: "grants (waits @ [now']) (s1\<lparr>clock := rest\<rparr>) = [(window_start st', now')]"
      by blast
    from g have "grants (waits @ [now']) s1 = [(window_start st', now')]"
      by (simp add: grants_clock)
    with s1 False w have "now # rest = (now # waits) @ now' # clock st'"
      "grants ((now # waits) @ [now']) st = [(window_start st', now')]" by simp_all
    then show ?thesis by blast
  qed
qed

lemma reserve_action_slot_grants:
  assumes "reserve_action_slot st = (Ok (), st')"
  shows "\<exists>waits now. clock st = waits @ now # clock st'
     \<and> grants (waits @ [now]) st = [(window_start st', now)]"
  using assms unfolding reserve_action_slot_def by (rule reserve_loop_grants)

subsection \<open>Ladder reconciliation\<close>

lemma reserve_step_frame:
  "reserve_step now st = (b, st') \<Longrightarrow>
     active_orders st' = active_orders st \<and> client st' = client st \<and> clock st' = clock st"
  by (auto simp: reserve_step_def Let_def split: if_splits)

lemma reserve_loop_frame:
  "reserve_loop clk st = (r, st') \<Longrightarrow>
     active_orders st' = active_orders st \<and> client st' = client st"
proof (induction clk arbitrary: st)
  case Nil
  then show ?case by simp
next
  case (Cons now rest)
  obtain b s1 where s1: "reserve_step now (st\<lparr>clock := rest\<rparr>) = (b, s1)"
    by (cases "reserve_step now (st\<lparr>clock := rest\<rparr>)")
  from reserve_step_frame [OF s1]
  have fr: "active_orders s1 = active_orders st" "client s1 = client st" by simp_all
  show ?case
  proof (cases b)
    case True
    with Cons.prems s1 fr show ?thesis by auto
  next
    case False
    with Cons.prems s1 have "reserve_loop rest s1 = (r, st')" by simp
    from Cons.IH [OF this] fr show ?thesis by simp
  qed
qed

lemma reserve_action_slot_frame:
  "reserve_action_slot st = (r, st') \<Longrightarrow>
     active_orders st' = active_orders st \<and> client st' = client st"
  unfolding reserve_action_slot_def by (rule reserve_loop_frame)

lemma reserve_action_slot_no_raise: "reserve_action_slot st \<noteq> (Raise e, st')"
proof -
  have "reserve_loop clk s \<noteq> (Raise e, st')" for clk s
    by (induction clk arbitrary: s) (auto split: prod.splits bool.splits)
  then show ?thesis by (simp add: reserve_action_slot_def)
qed

lemma place_order_Inr:
  "place_order level c = (Inr info, c') \<Longrightarrow>
     price info = price level \<and> size' info = size' level \<and> level_index info = level_index level"
  by (auto simp: place_order_def Let_def split: option.splits)

lemma replace_order_Inr:
  "replace_order oid level c = (Inr info, c') \<Longrightarrow>
     price info = price level \<and> size' info = size' level \<and> level_index info = level_index level"
  by (auto simp: replace_order_def split: prod.splits sum.splits dest: place_order_Inr)

lemma throttled_place_frame:
  "throttled_place level st = (r, st') \<Longrightarrow> active_orders st' = active_orders st"
  by (auto simp: throttled_place_def split: prod.splits outcome.splits sum.splits
      dest: reserve_action_slot_frame)

lemma throttled_replace_frame:
  "throttled_replace existing level st = (r, st') \<Longrightarrow> active_orders st' = active_orders st"
  by (auto simp: throttled_replace_def split: prod.splits outcome.splits sum.splits
      dest: reserve_action_slot_frame)

lemma throttled_cancel_frame:
  "throttled_cancel info st = (r, st') \<Longrightarrow> active_orders st' = active_orders st"
  by (auto simp: throttled_cancel_def split: prod.splits outcome.splits sum.splits
      dest: reserve_action_slot_frame)

lemma throttled_place_Ok:
  "throttled_place level st = (Ok info, st') \<Longrightarrow>
     price info = price level \<and> size' info = size' level"
  by (auto simp: throttled_place_def split: prod.splits outcome.splits sum.splits
      dest: place_order_Inr)

lemma throttled_replace_Ok:
  "throttled_replace existing level st = (Ok info, st') \<Longrightarrow>
     price info = price level \<and> size' info = size' level"
  by (auto simp: throttled_replace_def split: prod.splits outcome.splits sum.splits
      dest: replace_order_Inr)

lemma fresh_order_settled:
  "price info = price level \<Longrightarrow> size' info = size' level \<Longrightarrow> 0 < price level \<Longrightarrow>
     \<not> needs_refresh info level"
  by (simp add: needs_refresh_def bps_distance_def MIN_MOVE_TO_REFRESH_BPS_def)


lemma store_entry_known:
  "active_orders st smb = Some d \<Longrightarrow>
     store_entry smb sd idx info st =
       (Ok (), st\<lparr>active_orders :=
          (active_orders st)(smb \<mapsto> d(sd := AList.update idx (Some info) (d sd)))\<rparr>)"
  by (simp add: store_entry_def)

lemma delete_entry_known:
  "active_orders st smb = Some d \<Longrightarrow>
     delete_entry smb sd idx st =
       (Ok (), st\<lparr>active_orders :=
          (active_orders st)(smb \<mapsto> d(sd := AList.delete idx (d sd)))\<rparr>)"
  by (simp add: delete_entry_def)


text \<open>An operation of \<open>_sync_side\<close> that returns leaves a live order at the level's index
  that needs no refresh, and touches no other index, side or symbol.\<close>

lemma sync_level_Ok:
  assumes "sync_level smb sd level st = (Ok (), st')" "0 < price level"
  shows "\<exists>d book'. active_orders st smb = Some d
     \<and> active_orders st' = (active_orders st)(smb \<mapsto> d(sd := book'))
     \<and> (\<exists>info. map_of book' (level_index level) = Some (Some info) \<and> \<not> needs_refresh info level)
     \<and> (\<forall>j. j \<noteq> level_index level \<longrightarrow> map_of book' j = map_of (d sd) j)"
proof (cases "active_orders st smb")
  case None
  with assms show ?thesis by (simp add: sync_level_def)
next
  case (Some d)
  let ?idx = "level_index level"
  show ?thesis
  proof (cases "case map_of (d sd) ?idx of None \<Rightarrow> None | Some v \<Rightarrow> v")
    case None
    obtain r1 s1 where p: "throttled_place level st = (r1, s1)"
      by (cases "throttled_place level st")
    from throttled_place_frame [OF p] have fr: "active_orders s1 = active_orders st" .
    with Some have k: "active_orders s1 smb = Some d" by simp
    from assms(1) Some None p obtain info where r1: "r1 = Ok info"
      by (cases r1) (auto simp: sync_level_def)
    from throttled_place_Ok [OF p [unfolded r1]] assms(2)
    have settled: "\<not> needs_refresh info level" by (intro fresh_order_settled) simp_all
    let ?book = "AList.update ?idx (Some info) (d sd)"
    from assms(1) Some None p r1 store_entry_known [OF k, of sd ?idx info] fr
    have "active_orders st' = (active_orders st)(smb \<mapsto> d(sd := ?book))"
      by (auto simp: sync_level_def)
    moreover have "map_of ?book ?idx = Some (Some info)" by (simp add: update_conv')
    moreover have "\<forall>j. j \<noteq> ?idx \<longrightarrow> map_of ?book j = map_of (d sd) j"
      by (simp add: update_conv')
    ultimately show ?thesis using Some settled by blast
  next
    case existing: (Some existing)
    then have ex: "map_of (d sd) ?idx = Some (Some existing)"
      by (auto split: option.splits)
    show ?thesis
    proof (cases "needs_refresh existing level")
      case True
      obtain r1 s1 where p: "throttled_replace existing level st = (r1, s1)"
        by (cases "throttled_replace existing level st")
      from throttled_replace_frame [OF p] have fr: "active_orders s1 = active_orders st" .
      with Some have k: "active_orders s1 smb = Some d" by simp
      from assms(1) Some existing True p obtain info where r1: "r1 = Ok info"
        by (cases r1) (auto simp: sync_level_def)
      from throttled_replace_Ok [OF p [unfolded r1]] assms(2)
      have settled: "\<not> needs_refresh info level" by (intro fresh_order_settled) simp_all
      let ?book = "AList.update ?idx (Some info) (d sd)"
      from assms(1) Some existing True p r1 store_entry_known [OF k, of sd ?idx info] fr
      have "active_orders st' = (active_orders st)(smb \<mapsto> d(sd := ?book))"
        by (auto simp: sync_level_def)
      moreover have "map_of ?book ?idx = Some (Some info)" by (simp add: update_conv')
      moreover have "\<forall>j. j \<noteq> ?idx \<longrightarrow> map_of ?book j = map_of (d sd) j"
        by (simp add: update_conv')
      ultimately show ?thesis using Some settled by blast
    next
      case False
      with assms(1) Some existing have "st' = st" by (simp add: sync_level_def)
      moreover have "(active_orders st)(smb \<mapsto> d(sd := d sd)) = active_orders st"
        using Some by (simp add: map_upd_triv)
      ultimately show ?thesis using Some ex False by metis
    qed
  qed
qed

lemma sync_level_noop:
  assumes "active_orders st smb = Some d"
    and "map_of (d sd) (level_index level) = Some (Some info)" "\<not> needs_refresh info level"
  shows "sync_level smb sd level st = (Ok (), st)"
  using assms by (simp add: sync_level_def)


lemma sync_side_unknown:
  "sync_side smb sd desired st = (Ok (), st') \<Longrightarrow> active_orders st smb = None \<Longrightarrow> st' = st"
  by (cases desired) (simp_all add: sync_level_def)

lemma sync_side_Cons_Ok:
  assumes "sync_side smb sd (level # desired) st = (Ok (), st')"
  obtains s1 where "sync_level smb sd level st = (Ok (), s1)"
    and "sync_side smb sd desired s1 = (Ok (), st')"
proof -
  obtain r1 s1 where l: "sync_level smb sd level st = (r1, s1)"
    by (cases "sync_level smb sd level st")
  with assms have "r1 = Ok ()" by (cases r1) auto
  with l assms that show ?thesis by simp
qed

lemma sync_side_Ok:
  assumes "sync_side smb sd desired st = (Ok (), st')"
    and "distinct (map level_index desired)"
    and "\<forall>l \<in> set desired. 0 < price l"
    and "active_orders st smb = Some d"
  shows "\<exists>book'. active_orders st' = (active_orders st)(smb \<mapsto> d(sd := book'))
     \<and> (\<forall>l \<in> set desired. \<exists>info. map_of book' (level_index l) = Some (Some info)
            \<and> \<not> needs_refresh info l)
     \<and> (\<forall>j. j \<notin> level_index ` set desired \<longrightarrow> map_of book' j = map_of (d sd) j)"
  using assms
proof (induction desired arbitrary: st d)
  case Nil
  then have "st' = st" by simp
  moreover have "(active_orders st)(smb \<mapsto> d(sd := d sd)) = active_orders st"
    using Nil.prems by (simp add: map_upd_triv)
  ultimately show ?case by (intro exI [of _ "d sd"]) simp
next
  case (Cons level desired)
  from Cons.prems(1) obtain s1 where
    l: "sync_level smb sd level st = (Ok (), s1)" and rest: "sync_side smb sd desired s1 = (Ok (), st')"
    by (rule sync_side_Cons_Ok)
  from Cons.prems(3) have pos: "0 < price level" "\<forall>l \<in> set desired. 0 < price l" by simp_all
  from Cons.prems(2) have dist: "distinct (map level_index desired)"
    and fresh: "level_index level \<notin> level_index ` set desired" by simp_all
  from sync_level_Ok [OF l pos(1)] Cons.prems(4) obtain b1 info where
    a1: "active_orders s1 = (active_orders st)(smb \<mapsto> d(sd := b1))"
    and h1: "map_of b1 (level_index level) = Some (Some info)" "\<not> needs_refresh info level"
    and o1: "\<forall>j. j \<noteq> level_index level \<longrightarrow> map_of b1 j = map_of (d sd) j"
    by auto
  let ?d1 = "d(sd := b1)"
  from a1 have k1: "active_orders s1 smb = Some ?d1" by simp
  from Cons.IH [OF rest dist pos(2) k1] obtain b2 where
    a2: "active_orders st' = (active_orders s1)(smb \<mapsto> ?d1(sd := b2))"
    and h2: "\<forall>l \<in> set desired. \<exists>info. map_of b2 (level_index l) = Some (Some info)
            \<and> \<not> needs_refresh info l"
    and o2: "\<forall>j. j \<notin> level_index ` set desired \<longrightarrow> map_of b2 j = map_of (?d1 sd) j"
    by blast
  have "active_orders st' = (active_orders st)(smb \<mapsto> d(sd := b2))"
    using a1 a2 by simp
  moreover have "\<forall>l \<in> set (level # desired). \<exists>info. map_of b2 (level_index l) = Some (Some info)
            \<and> \<not> needs_refresh info l"
    using h1 h2 o2 fresh by auto
  moreover have "\<forall>j. j \<notin> level_index ` set (level # desired) \<longrightarrow> map_of b2 j = map_of (d sd) j"
    using o1 o2 by auto
  ultimately show ?case by blast
qed

lemma sync_side_noop:
  assumes "active_orders st smb = Some d"
    and "\<forall>l \<in> set desired. \<exists>info. map_of (d sd) (level_index l) = Some (Some info)
            \<and> \<not> needs_refresh info l"
  shows "sync_side smb sd desired st = (Ok (), st)"
  using assms(2)
proof (induction desired)
  case Nil
  then show ?case by simp
next
  case (Cons level desired)
  then obtain info where "map_of (d sd) (level_index level) = Some (Some info)"
    "\<not> needs_refresh info level" by auto
  from sync_level_noop [OF assms(1) this] Cons show ?case by simp
qed

lemma set_delete_subset: "set (AList.delete k al) \<subseteq> set al"
  by (auto simp: AList.delete_eq)

lemma prune_loop_Ok:
  assumes "prune_loop smb sd D items st = (Ok (), st')"
    and "active_orders st smb = Some d"
  shows "\<exists>book'. active_orders st' = (active_orders st)(smb \<mapsto> d(sd := book'))
     \<and> set book' \<subseteq> set (d sd)
     \<and> (\<forall>j \<in> D. map_of book' j = map_of (d sd) j)
     \<and> (\<forall>(j, v) \<in> set items. j \<notin> D \<and> v \<noteq> None \<longrightarrow> j \<notin> fst ` set book')"
  using assms
proof (induction items arbitrary: st d)
  case Nil
  then have "st' = st" by simp
  moreover have "(active_orders st)(smb \<mapsto> d(sd := d sd)) = active_orders st"
    using Nil.prems by (simp add: map_upd_triv)
  ultimately show ?case by (intro exI [of _ "d sd"]) simp
next
  case (Cons item items)
  obtain idx v where item: "item = (idx, v)" by (cases item)
  show ?case
  proof (cases "idx \<in> D \<or> v = None")
    case True
    with Cons.prems(1) item have "prune_loop smb sd D items st = (Ok (), st')"
      by (auto split: if_splits)
    from Cons.IH [OF this Cons.prems(2)] True item show ?thesis by auto
  next
    case False
    then obtain i where v: "v = Some i" and nd: "idx \<notin> D" by auto
    obtain r1 s1 where c: "throttled_cancel i st = (r1, s1)"
      by (cases "throttled_cancel i st")
    from Cons.prems(1) item v nd c have r1: "r1 = Ok ()" by (cases r1) auto
    from throttled_cancel_frame [OF c] Cons.prems(2)
    have fr: "active_orders s1 = active_orders st" and k1: "active_orders s1 smb = Some d"
      by simp_all
    let ?d2 = "d(sd := AList.delete idx (d sd))"
    let ?s2 = "s1\<lparr>active_orders := (active_orders s1)(smb \<mapsto> ?d2)\<rparr>"
    from Cons.prems(1) item v nd c r1 delete_entry_known [OF k1, of sd idx]
    have rest: "prune_loop smb sd D items ?s2 = (Ok (), st')" by simp
    have k2: "active_orders ?s2 smb = Some ?d2" by simp
    from Cons.IH [OF rest k2] obtain b where
      a: "active_orders st' = (active_orders ?s2)(smb \<mapsto> ?d2(sd := b))"
      and sub: "set b \<subseteq> set (?d2 sd)"
      and keep: "\<forall>j \<in> D. map_of b j = map_of (?d2 sd) j"
      and gone: "\<forall>(j, v) \<in> set items. j \<notin> D \<and> v \<noteq> None \<longrightarrow> j \<notin> fst ` set b"
      by blast
    have "active_orders st' = (active_orders st)(smb \<mapsto> d(sd := b))"
      using a fr by simp
    moreover have "set b \<subseteq> set (d sd)"
      using sub set_delete_subset [of idx "d sd"] by auto
    moreover have "\<forall>j \<in> D. map_of b j = map_of (d sd) j"
      using keep nd by (auto simp: delete_conv')
    moreover have "idx \<notin> fst ` set b"
      using sub delete_notin_dom [of idx "d sd"] by auto
    with gone have "\<forall>(j, v) \<in> set (item # items). j \<notin> D \<and> v \<noteq> None \<longrightarrow> j \<notin> fst ` set b"
      using item by auto
    ultimately show ?thesis by blast
  qed
qed

lemma prune_loop_noop:
  "\<forall>(j, v) \<in> set items. j \<in> D \<or> v = None \<Longrightarrow> prune_loop smb sd D items st = (Ok (), st)"
  by (induction items) auto

text \<open>After a pruning that returned, every entry left holds a desired index or \<open>None\<close>.\<close>

lemma prune_levels_Ok:
  assumes "prune_levels smb sd D st = (Ok (), st')"
  shows "\<exists>d book'. active_orders st smb = Some d
     \<and> active_orders st' = (active_orders st)(smb \<mapsto> d(sd := book'))
     \<and> (\<forall>j \<in> D. map_of book' j = map_of (d sd) j)
     \<and> (\<forall>(j, v) \<in> set book'. j \<in> D \<or> v = None)"
proof (cases "active_orders st smb")
  case None
  with assms show ?thesis by (simp add: prune_levels_def)
next
  case (Some d)
  with assms have "prune_loop smb sd D (d sd) st = (Ok (), st')"
    by (simp add: prune_levels_def)
  from prune_loop_Ok [OF this Some] obtain b where
    a: "active_orders st' = (active_orders st)(smb \<mapsto> d(sd := b))"
    and sub: "set b \<subseteq> set (d sd)"
    and keep: "\<forall>j \<in> D. map_of b j = map_of (d sd) j"
    and gone: "\<forall>(j, v) \<in> set (d sd). j \<notin> D \<and> v \<noteq> None \<longrightarrow> j \<notin> fst ` set b"
    by blast
  have "\<forall>(j, v) \<in> set b. j \<in> D \<or> v = None"
    using sub gone by force
  with Some a keep show ?thesis by blast
qed

lemma prune_levels_noop:
  assumes "active_orders st smb = Some d" "\<forall>(j, v) \<in> set (d sd). j \<in> D \<or> v = None"
  shows "prune_levels smb sd D st = (Ok (), st)"
  using assms by (simp add: prune_levels_def prune_loop_noop)


lemma sync_symbol_Ok_stages:
  assumes "sync_symbol smb bid_levels ask_levels st = (Ok (), st')"
  obtains s1 s2 s3 where "sync_side smb BID bid_levels st = (Ok (), s1)"
    and "sync_side smb ASK ask_levels s1 = (Ok (), s2)"
    and "prune_levels smb BID (set (map level_index bid_levels)) s2 = (Ok (), s3)"
    and "prune_levels smb ASK (set (map level_index ask_levels)) s3 = (Ok (), st')"
proof -
  obtain r1 s1 where a: "sync_side smb BID bid_levels st = (r1, s1)"
    by (cases "sync_side smb BID bid_levels st")
  with assms have r1: "r1 = Ok ()" by (cases r1) (auto simp: sync_symbol_def)
  obtain r2 s2 where b: "sync_side smb ASK ask_levels s1 = (r2, s2)"
    by (cases "sync_side smb ASK ask_levels s1")
  with assms a r1 have r2: "r2 = Ok ()" by (cases r2) (auto simp: sync_symbol_def)
  obtain r3 s3 where c: "prune_levels smb BID (set (map level_index bid_levels)) s2 = (r3, s3)"
    by (cases "prune_levels smb BID (set (map level_index bid_levels)) s2")
  with assms a r1 b r2 have r3: "r3 = Ok ()" by (cases r3) (auto simp: sync_symbol_def)
  from assms a r1 b r2 c r3
  have "prune_levels smb ASK (set (map level_index ask_levels)) s3 = (Ok (), st')"
    by (simp add: sync_symbol_def)
  with a r1 b r2 c r3 that show ?thesis by simp
qed

text \<open>
  Claim C8, amended. For desired ladders whose prices are positive and whose level
  indexes are distinct within each side: if one \<open>sync_symbol\<close> call returns, the same call
  repeated at once returns in the state it starts from. It reserves no slot, sends no
  request and changes no mirror entry: every live order already matches its desired
  level in size and within the 2 bps tolerance, and every other entry was pruned.
\<close>

theorem sync_symbol_idempotent:
  assumes "sync_symbol smb bid_levels ask_levels st = (Ok (), st')"
    and "distinct (map level_index bid_levels)" "distinct (map level_index ask_levels)"
    and "\<forall>l \<in> set (bid_levels @ ask_levels). 0 < price l"
  shows "sync_symbol smb bid_levels ask_levels st' = (Ok (), st')"
proof -
  let ?Db = "set (map level_index bid_levels)" and ?Da = "set (map level_index ask_levels)"
  from assms(1) obtain s1 s2 s3 where
    st1: "sync_side smb BID bid_levels st = (Ok (), s1)"
    and st2: "sync_side smb ASK ask_levels s1 = (Ok (), s2)"
    and st3: "prune_levels smb BID ?Db s2 = (Ok (), s3)"
    and st4: "prune_levels smb ASK ?Da s3 = (Ok (), st')"
    by (rule sync_symbol_Ok_stages)
  from assms(4) have posb: "\<forall>l \<in> set bid_levels. 0 < price l"
    and posa: "\<forall>l \<in> set ask_levels. 0 < price l" by simp_all
  from prune_levels_Ok [OF st3] obtain d2 B3 where
    k2: "active_orders s2 smb = Some d2"
    and a3: "active_orders s3 = (active_orders s2)(smb \<mapsto> d2(BID := B3))"
    and keep3: "\<forall>j \<in> ?Db. map_of B3 j = map_of (d2 BID) j"
    and only3: "\<forall>(j, v) \<in> set B3. j \<in> ?Db \<or> v = None"
    by blast
  have "active_orders st smb \<noteq> None"
  proof
    assume n: "active_orders st smb = None"
    from sync_side_unknown [OF st1 n] have "s1 = st" .
    with sync_side_unknown [OF st2] n have "s2 = st" by simp
    with n k2 show False by simp
  qed
  then obtain d0 where k0: "active_orders st smb = Some d0" by auto
  from sync_side_Ok [OF st1 assms(2) posb k0] obtain B1 where
    a1: "active_orders s1 = (active_orders st)(smb \<mapsto> d0(BID := B1))"
    and h1: "\<forall>l \<in> set bid_levels. \<exists>info. map_of B1 (level_index l) = Some (Some info)
            \<and> \<not> needs_refresh info l"
    by blast
  let ?d1 = "d0(BID := B1)"
  from a1 have k1: "active_orders s1 smb = Some ?d1" by simp
  from sync_side_Ok [OF st2 assms(3) posa k1] obtain A2 where
    a2: "active_orders s2 = (active_orders s1)(smb \<mapsto> ?d1(ASK := A2))"
    and h2: "\<forall>l \<in> set ask_levels. \<exists>info. map_of A2 (level_index l) = Some (Some info)
            \<and> \<not> needs_refresh info l"
    by blast
  from a2 k2 have d2: "d2 = ?d1(ASK := A2)" by simp
  let ?d3 = "d2(BID := B3)"
  from a3 have k3: "active_orders s3 smb = Some ?d3" by simp
  from prune_levels_Ok [OF st4] k3 obtain A4 where
    a4: "active_orders st' = (active_orders s3)(smb \<mapsto> ?d3(ASK := A4))"
    and keep4: "\<forall>j \<in> ?Da. map_of A4 j = map_of (?d3 ASK) j"
    and only4: "\<forall>(j, v) \<in> set A4. j \<in> ?Da \<or> v = None"
    by auto
  let ?d4 = "?d3(ASK := A4)"
  from a4 have k4: "active_orders st' smb = Some ?d4" by simp
  have bid_book: "?d4 BID = B3" and ask_book: "?d4 ASK = A4" by simp_all
  have hb: "\<forall>l \<in> set bid_levels. \<exists>info. map_of (?d4 BID) (level_index l) = Some (Some info)
            \<and> \<not> needs_refresh info l"
    unfolding bid_book using h1 keep3 d2 by simp
  have ha: "\<forall>l \<in> set ask_levels. \<exists>info. map_of (?d4 ASK) (level_index l) = Some (Some info)
            \<and> \<not> needs_refresh info l"
    unfolding ask_book using h2 keep4 d2 by simp
  have ob: "\<forall>(j, v) \<in> set (?d4 BID). j \<in> ?Db \<or> v = None"
    unfolding bid_book using only3 .
  have oa: "\<forall>(j, v) \<in> set (?d4 ASK). j \<in> ?Da \<or> v = None"
    unfolding ask_book using only4 .
  have "sync_side smb BID bid_levels st' = (Ok (), st')"
    using k4 hb by (rule sync_side_noop)
  moreover have "sync_side smb ASK ask_levels st' = (Ok (), st')"
    using k4 ha by (rule sync_side_noop)
  moreover have "prune_levels smb BID ?Db st' = (Ok (), st')"
    using k4 ob by (rule prune_levels_noop)
  moreover have "prune_levels smb ASK ?Da st' = (Ok (), st')"
    using k4 oa by (rule prune_levels_noop)
  ultimately show ?thesis by (simp add: sync_symbol_def)
qed

lemmas manager_eval =
  sync_symbol_def sync_level_def prune_levels_def store_entry_def delete_entry_def
  throttled_place_def throttled_replace_def throttled_cancel_def reserve_action_slot_def
  reserve_step_def place_order_def cancel_order_def replace_order_def needs_refresh_def
  bps_distance_def init_manager_def init_client_def ALL_SYMBOLS_def ETF_SYMBOL_def
  BASKET_SYMBOLS_def SYMBOL_IDS_def MAX_ACTIONS_PER_SECOND_def MIN_MOVE_TO_REFRESH_BPS_def
  Let_def

theorem sync_symbol_idempotent_witness:
  "fst (sync_symbol ''ETF''
         [\<lparr>symbol = ''ETF'', side = BID, level_index = 0, price = 100, size' = 10\<rparr>]
         [\<lparr>symbol = ''ETF'', side = ASK, level_index = 0, price = 101, size' = 10\<rparr>]
         (init_manager (init_client (\<lambda>n. Some (int n))) 0 [0, 0])) = Ok ()
   \<and> sync_symbol ''ETF''
         [\<lparr>symbol = ''ETF'', side = BID, level_index = 0, price = 100, size' = 10\<rparr>]
         [\<lparr>symbol = ''ETF'', side = ASK, level_index = 0, price = 101, size' = 10\<rparr>]
         (snd (sync_symbol ''ETF''
           [\<lparr>symbol = ''ETF'', side = BID, level_index = 0, price = 100, size' = 10\<rparr>]
           [\<lparr>symbol = ''ETF'', side = ASK, level_index = 0, price = 101, size' = 10\<rparr>]
           (init_manager (init_client (\<lambda>n. Some (int n))) 0 [0, 0])))
       = (Ok (), snd (sync_symbol ''ETF''
           [\<lparr>symbol = ''ETF'', side = BID, level_index = 0, price = 100, size' = 10\<rparr>]
           [\<lparr>symbol = ''ETF'', side = ASK, level_index = 0, price = 101, size' = 10\<rparr>]
           (init_manager (init_client (\<lambda>n. Some (int n))) 0 [0, 0])))"
proof -
  let ?bids = "[\<lparr>symbol = ''ETF'', side = BID, level_index = 0, price = 100, size' = 10\<rparr>]"
  let ?asks = "[\<lparr>symbol = ''ETF'', side = ASK, level_index = 0, price = 101, size' = 10\<rparr>]"
  let ?st = "init_manager (init_client (\<lambda>n. Some (int n))) 0 [0, 0]"
  have ok: "fst (sync_symbol ''ETF'' ?bids ?asks ?st) = Ok ()"
    by (simp add: manager_eval)
  then have run: "sync_symbol ''ETF'' ?bids ?asks ?st = (Ok (), snd (sync_symbol ''ETF'' ?bids ?asks ?st))"
    by (simp add: prod_eq_iff)
  have "sync_symbol ''ETF'' ?bids ?asks (snd (sync_symbol ''ETF'' ?bids ?asks ?st))
          = (Ok (), snd (sync_symbol ''ETF'' ?bids ?asks ?st))"
    by (rule sync_symbol_idempotent [OF run]) simp_all
  with ok show ?thesis by simp
qed

text \<open>
  Claim C8 as stated covers any desired ladders. A level priced at 0 is at distance
  \<open>inf\<close> from itself (the guard of \<open>_bps_distance\<close>), so the repeated call replaces it: one more
  slot and two more gateway requests. Two desired levels with the same index overwrite
  each other, so the repeated call replaces both: two more slots, four more requests.
\<close>

theorem sync_symbol_repeats_actions:
  "(case sync_symbol ''ETF''
           [\<lparr>symbol = ''ETF'', side = BID, level_index = 0, price = 0, size' = 10\<rparr>] []
           (init_manager (init_client (\<lambda>n. Some (int n))) 0 [0, 0]) of
      (Ok _, st1) \<Rightarrow>
        (case sync_symbol ''ETF''
                [\<lparr>symbol = ''ETF'', side = BID, level_index = 0, price = 0, size' = 10\<rparr>] [] st1 of
           (r, st2) \<Rightarrow> r = Ok () \<and> requests (client st1) = 1 \<and> requests (client st2) = 3
              \<and> actions_this_window st1 = 1 \<and> actions_this_window st2 = 2)
    | _ \<Rightarrow> False)
   \<and> (case sync_symbol ''ETF''
           [\<lparr>symbol = ''ETF'', side = BID, level_index = 0, price = 100, size' = 10\<rparr>,
            \<lparr>symbol = ''ETF'', side = BID, level_index = 0, price = 200, size' = 10\<rparr>] []
           (init_manager (init_client (\<lambda>n. Some (int n))) 0 [0, 0, 0, 0]) of
      (Ok _, st1) \<Rightarrow>
        (case sync_symbol ''ETF''
           [\<lparr>symbol = ''ETF'', side = BID, level_index = 0, price = 100, size' = 10\<rparr>,
            \<lparr>symbol = ''ETF'', side = BID, level_index = 0, price = 200, size' = 10\<rparr>] [] st1 of
           (r, st2) \<Rightarrow> r = Ok () \<and> requests (client st1) = 3 \<and> requests (client st2) = 7
              \<and> actions_this_window st1 = 2 \<and> actions_this_window st2 = 4)
    | _ \<Rightarrow> False)"
  by (simp add: manager_eval)






end
